theory Spec2Isabelle
  imports Main "HOL-Library.Word" "HOL-Library.AList" "HOL-Library.Multiset"
    "HOL-Library.Char_ord" "HOL-Library.List_Lexorder" "HOL-Library.Product_Lexorder"
begin

section \<open>Python values shared by the model\<close>

text \<open>
  Every exception the modelled code can raise is a value; a function that can raise
  returns \<open>py_error + 'a\<close> with \<open>Inl\<close> for the exception.  \<open>SystemExit\<close> carries the
  message handed to \<open>exit\<close>.
\<close>

datatype py_error =
    ValueError
  | KeyError
  | IndexError
  | TypeError
  | ZeroDivisionError
  | OverflowError
  | SystemExit string

section \<open>processing.py: tag matching\<close>


text \<open>
  \<open>Levenshtein.hamming\<close> belongs to a third-party library.  It is modelled from that
  library's documented contract: the number of positions at which two strings of the same
  length differ, and a \<open>ValueError\<close> for strings of different lengths.
\<close>

definition mismatches :: "string \<Rightarrow> string \<Rightarrow> nat" where
  "mismatches s1 s2 = length (filter (\<lambda>(a, b). a \<noteq> b) (zip s1 s2))"

definition hamming :: "string \<Rightarrow> string \<Rightarrow> py_error + nat" where
  "hamming s1 s2 =
     (if length s1 \<noteq> length s2 then Inl ValueError else Inr (mismatches s1 s2))"



section \<open>Python dictionaries and counters\<close>

text \<open>
  A \<open>dict\<close> keeps its keys in insertion order and the code iterates over dictionaries, so
  a dictionary is an association list in insertion order: \<open>d[k] = v\<close> is
  \<open>AList.update\<close> (the value is replaced in place, a new key goes to the end),
  \<open>d.pop(k)\<close> removes the entry, \<open>len(d)\<close> is the length, and a loop over the
  dictionary visits the pairs in list order, where the value paired with a key is what
  \<open>d[k]\<close> reads inside the loop.  A well-formed dictionary has no key twice.

  A \<open>Counter\<close> is a dictionary of integers whose read access gives 0 for a missing key
  without inserting it; \<open>c[k] += n\<close> reads, adds and stores.
\<close>

type_synonym counter = "(string \<times> int) list"

definition counter_get :: "counter \<Rightarrow> string \<Rightarrow> int" where
  "counter_get c k = (case map_of c k of None \<Rightarrow> 0 | Some n \<Rightarrow> n)"

definition counter_add :: "string \<Rightarrow> int \<Rightarrow> counter \<Rightarrow> counter" where
  "counter_add k n c = AList.update k (counter_get c k + n) c"

text \<open>\<open>Counter.update(other)\<close>: each count of \<open>other\<close> is added.\<close>

definition counter_update :: "counter \<Rightarrow> counter \<Rightarrow> counter" where
  "counter_update other c = fold (\<lambda>(k, n). counter_add k n) other c"

text \<open>
  The per-cell value of the results: a \<open>defaultdict(Counter)\<close> from tag name to the
  counter of UMIs.  Reading a missing tag creates an empty counter for it.
\<close>

type_synonym tag_counts = "(string \<times> counter) list"

type_synonym results = "(string \<times> tag_counts) list"

definition defaultdict_get :: "tag_counts \<Rightarrow> string \<Rightarrow> counter" where
  "defaultdict_get d TAG = (case map_of d TAG of None \<Rightarrow> [] | Some c \<Rightarrow> c)"

text \<open>A \<open>for\<close> loop whose body can raise: the first exception ends the loop.\<close>

fun for_loop :: "('a \<Rightarrow> 's \<Rightarrow> py_error + 's) \<Rightarrow> 'a list \<Rightarrow> 's \<Rightarrow> py_error + 's" where
  "for_loop body [] s = Inr s"
| "for_loop body (x # xs) s =
     (case body x s of Inl e \<Rightarrow> Inl e | Inr s' \<Rightarrow> for_loop body xs s')"

section \<open>processing.py: merging the per-chunk results\<close>

text \<open>
  One element of \<open>parallel_results\<close>: the mapped counts of a chunk and its counter of
  unmapped sequences.
\<close>

type_synonym chunk_result = "results \<times> counter"

text \<open>The four accumulators of \<open>merge_results\<close>.\<close>

record merged =
  merged_results :: results
  umis_per_cell :: counter
  reads_per_cell :: counter
  merged_no_match :: counter

text \<open>
  The body of the innermost loop (lines 196 to 200), for the pair \<open>(UMI, n)\<close> of the
  counter \<open>umis = mapped[cell_barcode][TAG]\<close>: \<open>n\<close> is added to
  \<open>merged_results[cell_barcode][TAG][UMI]\<close> and to \<open>reads_per_cell[cell_barcode]\<close>, and
  \<open>len(umis)\<close> is added to \<open>umis_per_cell[cell_barcode]\<close>.  \<open>merged_results\<close> is a plain
  dictionary: reading a missing cell barcode raises \<open>KeyError\<close>.
\<close>

definition merge_umi :: "string \<Rightarrow> string \<Rightarrow> counter \<Rightarrow> string \<times> int \<Rightarrow> merged \<Rightarrow> py_error + merged" where
  "merge_umi cell_barcode TAG umis = (\<lambda>(UMI, n) st.
     (case map_of (merged_results st) cell_barcode of
        None \<Rightarrow> Inl KeyError
      | Some d \<Rightarrow>
          Inr (st\<lparr>merged_results :=
                    AList.update cell_barcode
                      (AList.update TAG (counter_add UMI n (defaultdict_get d TAG)) d)
                      (merged_results st),
                  umis_per_cell :=
                    counter_add cell_barcode (int (length umis)) (umis_per_cell st),
                  reads_per_cell := counter_add cell_barcode n (reads_per_cell st)\<rparr>)))"

text \<open>Lines 192 to 200: a tag whose counter is empty is skipped.\<close>

definition merge_tag :: "string \<Rightarrow> string \<times> counter \<Rightarrow> merged \<Rightarrow> py_error + merged" where
  "merge_tag cell_barcode = (\<lambda>(TAG, umis) st.
     if umis \<noteq> [] then for_loop (merge_umi cell_barcode TAG umis) umis st else Inr st)"

text \<open>Lines 189 to 200: a cell barcode seen for the first time gets an empty entry.\<close>

definition merge_cell :: "string \<times> tag_counts \<Rightarrow> merged \<Rightarrow> py_error + merged" where
  "merge_cell = (\<lambda>(cell_barcode, tags) st.
     for_loop (merge_tag cell_barcode) tags
       (if map_of (merged_results st) cell_barcode = None
        then st\<lparr>merged_results := AList.update cell_barcode [] (merged_results st)\<rparr>
        else st))"

text \<open>Lines 186 to 201, the body of the loop over the chunks.\<close>

definition merge_chunk :: "chunk_result \<Rightarrow> merged \<Rightarrow> py_error + merged" where
  "merge_chunk = (\<lambda>(mapped, unmapped) st.
     (case for_loop merge_cell mapped st of
        Inl e \<Rightarrow> Inl e
      | Inr st' \<Rightarrow>
          Inr (st'\<lparr>merged_no_match := counter_update unmapped (merged_no_match st')\<rparr>)))"

definition merge_results :: "chunk_result list \<Rightarrow> py_error + merged" where
  "merge_results parallel_results =
     for_loop merge_chunk parallel_results
       \<lparr>merged_results = [], umis_per_cell = [], reads_per_cell = [], merged_no_match = []\<rparr>"

section \<open>processing.py: cell barcodes and a provided whitelist\<close>

text \<open>
  \<open>pybktree.BKTree\<close> belongs to a third-party library.  It is modelled from that
  library's documented contract: a tree holds the elements it was built from, and
  \<open>find(item, n)\<close> returns the pairs \<open>(distance, element)\<close> of all elements whose distance
  to \<open>item\<close> is at most \<open>n\<close>, sorted.  The tree is represented by the list of its elements;
  the distance function is \<open>Levenshtein.hamming\<close>, whose exception ends the search.
\<close>

type_synonym bktree = "string list"

fun distances :: "string list \<Rightarrow> string \<Rightarrow> py_error + (nat \<times> string) list" where
  "distances [] item = Inr []"
| "distances (candidate # rest) item =
     (case hamming candidate item of
        Inl e \<Rightarrow> Inl e
      | Inr distance \<Rightarrow>
          (case distances rest item of
             Inl e \<Rightarrow> Inl e
           | Inr found \<Rightarrow> Inr ((distance, candidate) # found)))"

definition bktree_find :: "bktree \<Rightarrow> string \<Rightarrow> int \<Rightarrow> py_error + (nat \<times> string) list" where
  "bktree_find barcode_tree item n =
     (case distances barcode_tree item of
        Inl e \<Rightarrow> Inl e
      | Inr found \<Rightarrow> Inr (sort (filter (\<lambda>(distance, candidate). int distance \<le> n) found)))"

text \<open>
  \<open>true_to_false\<close> is a \<open>defaultdict(list)\<close>: reading a missing key gives a new empty list,
  and \<open>true_to_false[k].append(x)\<close> stores the extended list.
\<close>

type_synonym barcode_map = "(string \<times> string list) list"

definition barcode_map_get :: "barcode_map \<Rightarrow> string \<Rightarrow> string list" where
  "barcode_map_get true_to_false k = (case map_of true_to_false k of None \<Rightarrow> [] | Some xs \<Rightarrow> xs)"

definition barcode_map_append :: "string \<Rightarrow> string \<Rightarrow> barcode_map \<Rightarrow> barcode_map" where
  "barcode_map_append k x true_to_false =
     AList.update k (barcode_map_get true_to_false k @ [x]) true_to_false"

text \<open>
  The body of the loop of \<open>find_true_to_false_map\<close> (lines 418 to 438).  The three branches
  on the number of candidates are kept; \<open>candidates[0]\<close> is read only when the list has
  exactly one element.
\<close>

definition find_true_to_false_step ::
    "bktree \<Rightarrow> string set \<Rightarrow> int \<Rightarrow> string \<Rightarrow> barcode_map \<Rightarrow> py_error + barcode_map" where
  "find_true_to_false_step barcode_tree whitelist collapsing_threshold cell_barcode true_to_false =
     (if cell_barcode \<in> whitelist then Inr true_to_false
      else
        (case bktree_find barcode_tree cell_barcode collapsing_threshold of
           Inl e \<Rightarrow> Inl e
         | Inr found \<Rightarrow>
             (let candidates = map snd (filter (\<lambda>(d, white_cell). d > 0) found) in
              if length candidates = 1
              then Inr (barcode_map_append (hd candidates) cell_barcode true_to_false)
              else if length candidates = 0 then Inr true_to_false
              else Inr true_to_false)))"

definition find_true_to_false_map ::
    "bktree \<Rightarrow> string list \<Rightarrow> string set \<Rightarrow> int \<Rightarrow> py_error + barcode_map" where
  "find_true_to_false_map barcode_tree cell_barcodes whitelist collapsing_threshold =
     for_loop (find_true_to_false_step barcode_tree whitelist collapsing_threshold)
       cell_barcodes []"

section \<open>Notions used to state the properties\<close>

subsection \<open>Tag matching\<close>




subsection \<open>Merged results read as maps\<close>

text \<open>
  Two dictionaries are equal in Python when they hold the same keys with equal values,
  whatever the insertion order.  The view of a state forgets the order: every dictionary
  becomes a map, the nested results a map of maps of maps.
\<close>

record merged_view =
  results_view :: "string \<rightharpoonup> (string \<rightharpoonup> (string \<rightharpoonup> int))"
  umis_view :: "string \<rightharpoonup> int"
  reads_view :: "string \<rightharpoonup> int"
  no_match_view :: "string \<rightharpoonup> int"

definition view_results :: "results \<Rightarrow> string \<rightharpoonup> (string \<rightharpoonup> (string \<rightharpoonup> int))" where
  "view_results r = (\<lambda>cb. map_option (\<lambda>d TAG. map_option map_of (map_of d TAG)) (map_of r cb))"

definition view :: "merged \<Rightarrow> merged_view" where
  "view st = \<lparr>results_view = view_results (merged_results st),
              umis_view = map_of (umis_per_cell st),
              reads_view = map_of (reads_per_cell st),
              no_match_view = map_of (merged_no_match st)\<rparr>"

definition view_init :: merged_view where
  "view_init = \<lparr>results_view = Map.empty, umis_view = Map.empty, reads_view = Map.empty,
                no_match_view = Map.empty\<rparr>"

text \<open>
  The same reading of the loops of \<open>merge_results\<close>, on views: \<open>bump\<close> is
  \<open>c[k] += n\<close> on a map, \<open>bump3\<close> is \<open>r[cb][TAG][UMI] += n\<close>, and \<open>touch\<close> gives a new cell
  barcode its empty entry.
\<close>

definition bump :: "string \<Rightarrow> int \<Rightarrow> (string \<rightharpoonup> int) \<Rightarrow> (string \<rightharpoonup> int)" where
  "bump k n m = m(k \<mapsto> (case m k of None \<Rightarrow> 0 | Some x \<Rightarrow> x) + n)"

definition bump3 :: "string \<Rightarrow> string \<Rightarrow> string \<Rightarrow> int \<Rightarrow>
    (string \<rightharpoonup> (string \<rightharpoonup> (string \<rightharpoonup> int))) \<Rightarrow> (string \<rightharpoonup> (string \<rightharpoonup> (string \<rightharpoonup> int)))" where
  "bump3 cb TAG UMI n R =
     (let d = (case R cb of None \<Rightarrow> Map.empty | Some d \<Rightarrow> d);
          c = (case d TAG of None \<Rightarrow> Map.empty | Some c \<Rightarrow> c)
      in R(cb \<mapsto> d(TAG \<mapsto> bump UMI n c)))"

definition touch :: "string \<Rightarrow> (string \<rightharpoonup> (string \<rightharpoonup> (string \<rightharpoonup> int))) \<Rightarrow> (string \<rightharpoonup> (string \<rightharpoonup> (string \<rightharpoonup> int)))" where
  "touch cb R = (if R cb = None then R(cb \<mapsto> Map.empty) else R)"

definition v_umi :: "string \<Rightarrow> string \<Rightarrow> int \<Rightarrow> string \<times> int \<Rightarrow> merged_view \<Rightarrow> merged_view" where
  "v_umi cb TAG k = (\<lambda>(UMI, n) V.
     V\<lparr>results_view := bump3 cb TAG UMI n (results_view V),
       umis_view := bump cb k (umis_view V),
       reads_view := bump cb n (reads_view V)\<rparr>)"

definition v_touch :: "string \<Rightarrow> merged_view \<Rightarrow> merged_view" where
  "v_touch cb V = V\<lparr>results_view := touch cb (results_view V)\<rparr>"

definition v_unmapped :: "string \<times> int \<Rightarrow> merged_view \<Rightarrow> merged_view" where
  "v_unmapped = (\<lambda>(k, n) V. V\<lparr>no_match_view := bump k n (no_match_view V)\<rparr>)"

definition v_tag :: "string \<Rightarrow> string \<times> counter \<Rightarrow> merged_view \<Rightarrow> merged_view" where
  "v_tag cb = (\<lambda>(TAG, umis). fold (v_umi cb TAG (int (length umis))) umis)"

definition v_cell :: "string \<times> tag_counts \<Rightarrow> merged_view \<Rightarrow> merged_view" where
  "v_cell = (\<lambda>(cb, tags). fold (v_tag cb) tags \<circ> v_touch cb)"

definition v_chunk :: "chunk_result \<Rightarrow> merged_view \<Rightarrow> merged_view" where
  "v_chunk = (\<lambda>(mapped, unmapped). fold v_unmapped unmapped \<circ> fold v_cell mapped)"

text \<open>
  Functions composed of functions taken from a set \<open>P\<close>.  When the members of \<open>P\<close>
  commute with each other, so do their compositions.
\<close>

inductive composed :: "('s \<Rightarrow> 's) set \<Rightarrow> ('s \<Rightarrow> 's) \<Rightarrow> bool" for P where
  composed_id: "composed P id"
| composed_step: "f \<in> P \<Longrightarrow> composed P g \<Longrightarrow> composed P (f \<circ> g)"

definition merge_prims :: "(merged_view \<Rightarrow> merged_view) set" where
  "merge_prims = {f. (\<exists>cb TAG k x. f = v_umi cb TAG k x) \<or> (\<exists>cb. f = v_touch cb) \<or>
                     (\<exists>x. f = v_unmapped x)}"

text \<open>The loop invariant of the per-cell loops: the cell barcode has its entry.\<close>

definition has_cell :: "string \<Rightarrow> merged \<Rightarrow> bool" where
  "has_cell cb st = (map_of (merged_results st) cb \<noteq> None)"

text \<open>
  Reading the accumulators as Python does: \<open>results_count r cb TAG UMI\<close> is the count
  stored for a UMI, 0 when the cell barcode, the tag or the UMI has no entry.
\<close>

definition results_count :: "results \<Rightarrow> string \<Rightarrow> string \<Rightarrow> string \<Rightarrow> int" where
  "results_count r cb TAG UMI =
     (case map_of r cb of None \<Rightarrow> 0 | Some d \<Rightarrow> counter_get (defaultdict_get d TAG) UMI)"

definition get0 :: "(string \<rightharpoonup> int) \<Rightarrow> string \<Rightarrow> int" where
  "get0 m k = (case m k of None \<Rightarrow> 0 | Some x \<Rightarrow> x)"

definition get3 :: "(string \<rightharpoonup> (string \<rightharpoonup> (string \<rightharpoonup> int))) \<Rightarrow> string \<Rightarrow> string \<Rightarrow> string \<Rightarrow> int" where
  "get3 R cb t u =
     (case R cb of None \<Rightarrow> 0 | Some d \<Rightarrow>
       (case d t of None \<Rightarrow> 0 | Some c \<Rightarrow> get0 c u))"

text \<open>
  What one chunk adds for the cell barcode \<open>cb\<close>.  To the UMI total: for every tag of every
  entry of that cell barcode, the length \<open>k\<close> of the tag's UMI counter times \<open>k\<close> (the loop
  adds \<open>k\<close> once for each of the \<open>k\<close> UMIs).  To the read total: the sum of the counts of
  the tag's UMIs.  To the count of one UMI under one tag: the counts stored for that UMI.
\<close>

definition tag_umi_increment :: "string \<times> counter \<Rightarrow> int" where
  "tag_umi_increment = (\<lambda>(TAG, umis). int (length umis) * int (length umis))"

definition cell_umi_increment :: "string \<Rightarrow> string \<times> tag_counts \<Rightarrow> int" where
  "cell_umi_increment cb = (\<lambda>(cell_barcode, tags).
     if cell_barcode = cb then sum_list (map tag_umi_increment tags) else 0)"

definition chunk_umi_increment :: "string \<Rightarrow> chunk_result \<Rightarrow> int" where
  "chunk_umi_increment cb = (\<lambda>(mapped, unmapped). sum_list (map (cell_umi_increment cb) mapped))"

definition tag_read_increment :: "string \<times> counter \<Rightarrow> int" where
  "tag_read_increment = (\<lambda>(TAG, umis). sum_list (map snd umis))"

definition cell_read_increment :: "string \<Rightarrow> string \<times> tag_counts \<Rightarrow> int" where
  "cell_read_increment cb = (\<lambda>(cell_barcode, tags).
     if cell_barcode = cb then sum_list (map tag_read_increment tags) else 0)"

definition chunk_read_increment :: "string \<Rightarrow> chunk_result \<Rightarrow> int" where
  "chunk_read_increment cb = (\<lambda>(mapped, unmapped). sum_list (map (cell_read_increment cb) mapped))"

definition umi_count_increment :: "string \<Rightarrow> string \<times> int \<Rightarrow> int" where
  "umi_count_increment u = (\<lambda>(UMI, n). if UMI = u then n else 0)"

definition tag_count_increment :: "string \<Rightarrow> string \<Rightarrow> string \<times> counter \<Rightarrow> int" where
  "tag_count_increment t u = (\<lambda>(TAG, umis).
     if TAG = t then sum_list (map (umi_count_increment u) umis) else 0)"

definition cell_count_increment :: "string \<Rightarrow> string \<Rightarrow> string \<Rightarrow> string \<times> tag_counts \<Rightarrow> int" where
  "cell_count_increment cb t u = (\<lambda>(cell_barcode, tags).
     if cell_barcode = cb then sum_list (map (tag_count_increment t u) tags) else 0)"

definition chunk_count_increment :: "string \<Rightarrow> string \<Rightarrow> string \<Rightarrow> chunk_result \<Rightarrow> int" where
  "chunk_count_increment cb t u = (\<lambda>(mapped, unmapped). sum_list (map (cell_count_increment cb t u) mapped))"

section \<open>Tag matching returns the first tag within the threshold\<close>





section \<open>Merging the per-chunk results\<close>

subsection \<open>The loops on views\<close>

lemma map_of_counter_add: "map_of (counter_add k n c) = bump k n (map_of c)"
  by (simp add: counter_add_def counter_get_def bump_def update_conv')

lemma bump_commute: "bump k n (bump k' n' m) = bump k' n' (bump k n m)"
  by (auto simp: bump_def fun_eq_iff)

lemma bump3_commute:
  "bump3 cb t u n (bump3 cb' t' u' n' R) = bump3 cb' t' u' n' (bump3 cb t u n R)"
  by (auto simp: bump3_def bump_def fun_eq_iff Let_def split: option.splits)

lemma touch_bump3: "touch cb (bump3 cb' t u n R) = bump3 cb' t u n (touch cb R)"
  by (auto simp: bump3_def touch_def fun_eq_iff Let_def split: option.splits)

lemma touch_commute: "touch cb (touch cb' R) = touch cb' (touch cb R)"
  by (auto simp: touch_def fun_eq_iff)

lemma composed_comp: "composed P f \<Longrightarrow> composed P g \<Longrightarrow> composed P (f \<circ> g)"
proof (induction rule: composed.induct)
  case composed_id
  then show ?case by (simp only: id_comp)
next
  case (composed_step f h)
  from composed_step.IH [OF composed_step.prems] have "composed P (h \<circ> g)" .
  then have "composed P (f \<circ> (h \<circ> g))" using composed_step.hyps(1) by (rule composed.composed_step [rotated])
  then show ?case by (simp only: comp_assoc)
qed

lemma composed_prim: "f \<in> P \<Longrightarrow> composed P f"
proof -
  assume "f \<in> P"
  then have "composed P (f \<circ> id)" using composed_id by (rule composed_step)
  then show ?thesis by (simp only: comp_id)
qed

lemma composed_fold: "(\<And>x. x \<in> set xs \<Longrightarrow> composed P (f x)) \<Longrightarrow> composed P (fold f xs)"
proof (induction xs)
  case Nil
  have "fold f [] = id" by (simp add: fun_eq_iff)
  then show ?case by (simp only: composed_id)
next
  case (Cons x xs)
  have e: "fold f (x # xs) = fold f xs \<circ> f x" by (simp add: fun_eq_iff)
  have "composed P (fold f xs)" using Cons by simp
  moreover have "composed P (f x)" using Cons.prems by simp
  ultimately have "composed P (fold f xs \<circ> f x)" by (rule composed_comp)
  then show ?case by (simp only: e)
qed

lemma composed_commute_prim:
  assumes P: "\<And>f g. f \<in> P \<Longrightarrow> g \<in> P \<Longrightarrow> f \<circ> g = g \<circ> f"
  shows "composed P f \<Longrightarrow> g \<in> P \<Longrightarrow> f \<circ> g = g \<circ> f"
proof (induction rule: composed.induct)
  case composed_id
  then show ?case by (simp only: id_comp comp_id)
next
  case (composed_step f h)
  have hg: "h \<circ> g = g \<circ> h" using composed_step.IH composed_step.prems .
  have fg: "f \<circ> g = g \<circ> f" using P composed_step.hyps(1) composed_step.prems .
  have "(f \<circ> h) \<circ> g = f \<circ> (h \<circ> g)" by (simp only: comp_assoc)
  also have "\<dots> = f \<circ> (g \<circ> h)" by (simp only: hg)
  also have "\<dots> = (f \<circ> g) \<circ> h" by (simp only: comp_assoc)
  also have "\<dots> = (g \<circ> f) \<circ> h" by (simp only: fg)
  also have "\<dots> = g \<circ> (f \<circ> h)" by (simp only: comp_assoc)
  finally show ?case .
qed

lemma composed_commute:
  assumes P: "\<And>f g. f \<in> P \<Longrightarrow> g \<in> P \<Longrightarrow> f \<circ> g = g \<circ> f"
  shows "composed P g \<Longrightarrow> composed P f \<Longrightarrow> f \<circ> g = g \<circ> f"
proof (induction rule: composed.induct)
  case composed_id
  then show ?case by (simp only: id_comp comp_id)
next
  case (composed_step g h)
  have fg: "f \<circ> g = g \<circ> f"
    using P composed_step.prems composed_step.hyps(1) by (rule composed_commute_prim)
  have fh: "f \<circ> h = h \<circ> f" using composed_step.IH composed_step.prems .
  have "f \<circ> (g \<circ> h) = (f \<circ> g) \<circ> h" by (simp only: comp_assoc)
  also have "\<dots> = (g \<circ> f) \<circ> h" by (simp only: fg)
  also have "\<dots> = g \<circ> (f \<circ> h)" by (simp only: comp_assoc)
  also have "\<dots> = g \<circ> (h \<circ> f)" by (simp only: fh)
  also have "\<dots> = (g \<circ> h) \<circ> f" by (simp only: comp_assoc)
  finally show ?case .
qed

lemma merge_prims_commute: "f \<in> merge_prims \<Longrightarrow> g \<in> merge_prims \<Longrightarrow> f \<circ> g = g \<circ> f"
  unfolding merge_prims_def
  by (auto simp: fun_eq_iff v_umi_def v_touch_def v_unmapped_def bump_commute bump3_commute
      touch_bump3 touch_commute)

lemma view_results_add:
  "map_of mr cb = Some d \<Longrightarrow>
   view_results (AList.update cb (AList.update TAG (counter_add u n (defaultdict_get d TAG)) d) mr)
   = bump3 cb TAG u n (view_results mr)"
  by (auto simp: view_results_def bump3_def update_conv' map_of_counter_add defaultdict_get_def
      fun_eq_iff Let_def split: option.splits)

lemma view_results_touch:
  "view_results (if map_of mr cb = None then AList.update cb [] mr else mr) = touch cb (view_results mr)"
  by (auto simp: view_results_def touch_def update_conv' fun_eq_iff)

lemma merge_umi_view:
  assumes "has_cell cb st"
  shows "\<exists>st'. merge_umi cb TAG umis x st = Inr st' \<and> has_cell cb st' \<and>
           view st' = v_umi cb TAG (int (length umis)) x (view st)"
proof -
  obtain u n where x: "x = (u, n)" by (cases x)
  from assms obtain d where d: "map_of (merged_results st) cb = Some d"
    by (auto simp: has_cell_def)
  show ?thesis
    by (simp add: x d merge_umi_def has_cell_def update_conv' view_def v_umi_def
        view_results_add map_of_counter_add)
qed

lemma for_loop_view:
  assumes step: "\<And>x s. x \<in> set xs \<Longrightarrow> I s \<Longrightarrow>
             \<exists>s'. body x s = Inr s' \<and> I s' \<and> view s' = vbody x (view s)"
  shows "I s \<Longrightarrow> \<exists>s'. for_loop body xs s = Inr s' \<and> I s' \<and> view s' = fold vbody xs (view s)"
  using step
proof (induction xs arbitrary: s)
  case Nil
  then show ?case by simp
next
  case (Cons x xs)
  from Cons.prems(2) [of x s] Cons.prems(1)
  obtain s1 where s1: "body x s = Inr s1" "I s1" "view s1 = vbody x (view s)" by auto
  from Cons.IH [OF s1(2)] Cons.prems(2)
  obtain s2 where "for_loop body xs s1 = Inr s2" "I s2" "view s2 = fold vbody xs (view s1)"
    by auto
  with s1 show ?case by simp
qed

lemma merge_tag_view:
  assumes "has_cell cb st"
  shows "\<exists>st'. merge_tag cb x st = Inr st' \<and> has_cell cb st' \<and> view st' = v_tag cb x (view st)"
proof -
  obtain TAG umis where x: "x = (TAG, umis)" by (cases x)
  have "\<exists>st'. for_loop (merge_umi cb TAG umis) umis st = Inr st' \<and> has_cell cb st' \<and>
          view st' = fold (v_umi cb TAG (int (length umis))) umis (view st)"
    by (rule for_loop_view [where I = "has_cell cb"]) (auto intro: merge_umi_view assms)
  then show ?thesis
    using assms by (cases "umis = []") (auto simp: x merge_tag_def v_tag_def)
qed

lemma merge_cell_view:
  "\<exists>st'. merge_cell x st = Inr st' \<and> view st' = v_cell x (view st)"
proof -
  obtain cb tags where x: "x = (cb, tags)" by (cases x)
  let ?st1 = "if map_of (merged_results st) cb = None
        then st\<lparr>merged_results := AList.update cb [] (merged_results st)\<rparr> else st"
  have h: "has_cell cb ?st1" by (auto simp: has_cell_def update_conv')
  have v: "view ?st1 = v_touch cb (view st)"
    using view_results_touch [of "merged_results st" cb]
    by (auto simp: view_def v_touch_def)
  have "\<exists>st'. for_loop (merge_tag cb) tags ?st1 = Inr st' \<and> has_cell cb st' \<and>
          view st' = fold (v_tag cb) tags (view ?st1)"
  proof (rule for_loop_view [where I = "has_cell cb"])
    show "has_cell cb ?st1" by (rule h)
  next
    fix y s assume "has_cell cb s"
    then show "\<exists>s'. merge_tag cb y s = Inr s' \<and> has_cell cb s' \<and> view s' = v_tag cb y (view s)"
      by (rule merge_tag_view)
  qed
  then show ?thesis
    unfolding x merge_cell_def v_cell_def v by auto
qed

lemma view_counter_update:
  "map_of (counter_update other c) = fold (\<lambda>(k, n). bump k n) other (map_of c)"
  unfolding counter_update_def
  by (induction other arbitrary: c) (auto simp: map_of_counter_add)

lemma fold_v_unmapped:
  "fold v_unmapped other V = V\<lparr>no_match_view := fold (\<lambda>(k, n). bump k n) other (no_match_view V)\<rparr>"
  by (induction other arbitrary: V) (auto simp: v_unmapped_def)

lemma merge_chunk_view:
  "\<exists>st'. merge_chunk x st = Inr st' \<and> view st' = v_chunk x (view st)"
proof -
  obtain mapped unmapped where x: "x = (mapped, unmapped)" by (cases x)
  have "\<exists>st'. for_loop merge_cell mapped st = Inr st' \<and> True \<and>
          view st' = fold v_cell mapped (view st)"
    by (rule for_loop_view [where I = "\<lambda>_. True"]) (auto intro: merge_cell_view)
  then obtain st1 where st1: "for_loop merge_cell mapped st = Inr st1"
     "view st1 = fold v_cell mapped (view st)" by auto
  have "view (st1\<lparr>merged_no_match := counter_update unmapped (merged_no_match st1)\<rparr>)
        = (view st1)\<lparr>no_match_view := fold (\<lambda>(k, n). bump k n) unmapped (no_match_view (view st1))\<rparr>"
    by (simp add: view_def view_counter_update)
  then show ?thesis
    by (simp add: x merge_chunk_def v_chunk_def fold_v_unmapped st1)
qed

lemma merge_results_view:
  "\<exists>st. merge_results chunks = Inr st \<and> view st = fold v_chunk chunks view_init"
proof -
  let ?init = "\<lparr>merged_results = [], umis_per_cell = [], reads_per_cell = [], merged_no_match = []\<rparr>"
  have "\<exists>st'. for_loop merge_chunk chunks ?init = Inr st' \<and> True \<and>
          view st' = fold v_chunk chunks (view ?init)"
    by (rule for_loop_view [where I = "\<lambda>_. True"]) (auto intro: merge_chunk_view)
  moreover have "view ?init = view_init"
    by (simp add: view_def view_init_def view_results_def)
  ultimately show ?thesis by (simp add: merge_results_def)
qed

lemma composed_v_chunk: "composed merge_prims (v_chunk x)"
proof -
  have umi: "\<And>cb TAG k y. composed merge_prims (v_umi cb TAG k y)"
    by (rule composed_prim) (unfold merge_prims_def, blast)
  have tch: "\<And>cb. composed merge_prims (v_touch cb)"
    by (rule composed_prim) (unfold merge_prims_def, blast)
  have unm: "\<And>y. composed merge_prims (v_unmapped y)"
    by (rule composed_prim) (unfold merge_prims_def, blast)
  have tg: "\<And>cb y. composed merge_prims (v_tag cb y)"
    by (auto simp: v_tag_def split: prod.splits intro: composed_fold umi)
  have cl: "\<And>y. composed merge_prims (v_cell y)"
    by (auto simp: v_cell_def split: prod.splits intro!: composed_comp composed_fold tg tch)
  show ?thesis
    by (auto simp: v_chunk_def split: prod.splits intro!: composed_comp composed_fold cl unm)
qed

lemma v_chunk_commute: "v_chunk x \<circ> v_chunk y = v_chunk y \<circ> v_chunk x"
  by (rule composed_commute [OF merge_prims_commute composed_v_chunk composed_v_chunk])

lemma counter_get_view: "counter_get c k = get0 (map_of c) k"
  by (simp add: counter_get_def get0_def)

lemma results_count_view: "results_count r cb t u = get3 (view_results r) cb t u"
  by (auto simp: results_count_def get3_def view_results_def defaultdict_get_def
      counter_get_def get0_def split: option.splits)

lemma get0_bump: "get0 (bump k n m) c = get0 m c + (if c = k then n else 0)"
  by (simp add: get0_def bump_def)

lemma get0_empty: "get0 Map.empty u = 0"
  by (simp add: get0_def)

lemma get3_bump3:
  "get3 (bump3 cb TAG UMI n R) c t u =
   get3 R c t u + (if c = cb \<and> t = TAG \<and> u = UMI then n else 0)"
  by (auto simp: get3_def bump3_def get0_bump get0_empty Let_def split: option.splits)

lemma get3_touch: "get3 (touch cb R) c t u = get3 R c t u"
  by (auto simp: get3_def touch_def split: option.splits)

lemma fold_adds:
  fixes h :: "'v \<Rightarrow> int"
  assumes "\<And>x V. x \<in> set xs \<Longrightarrow> h (f x V) = h V + g x"
  shows "h (fold f xs V) = h V + sum_list (map g xs)"
  using assms by (induction xs arbitrary: V) auto

lemma sum_list_const_int: "sum_list (map (\<lambda>x. k) xs) = int (length xs) * (k::int)"
  by (induction xs) (auto simp: algebra_simps)

lemma sum_list_if_const:
  "sum_list (map (\<lambda>x. if b then g x else (0::int)) xs) = (if b then sum_list (map g xs) else 0)"
  by (induction xs) auto

lemma v_tag_umis:
  "get0 (umis_view (v_tag cb y V)) c =
   get0 (umis_view V) c + (if c = cb then tag_umi_increment y else 0)"
proof -
  obtain TAG umis where y: "y = (TAG, umis)" by (cases y)
  have "get0 (umis_view (fold (v_umi cb TAG (int (length umis))) umis V)) c =
        get0 (umis_view V) c + sum_list (map (\<lambda>x. if c = cb then int (length umis) else 0) umis)"
    by (rule fold_adds) (auto simp: v_umi_def get0_bump)
  then show ?thesis
    by (simp add: y v_tag_def tag_umi_increment_def sum_list_if_const sum_list_const_int)
qed

lemma v_tag_reads:
  "get0 (reads_view (v_tag cb y V)) c =
   get0 (reads_view V) c + (if c = cb then tag_read_increment y else 0)"
proof -
  obtain TAG umis where y: "y = (TAG, umis)" by (cases y)
  have "get0 (reads_view (fold (v_umi cb TAG (int (length umis))) umis V)) c =
        get0 (reads_view V) c + sum_list (map (\<lambda>x. if c = cb then snd x else 0) umis)"
    by (rule fold_adds) (auto simp: v_umi_def get0_bump)
  then show ?thesis
    by (simp add: y v_tag_def tag_read_increment_def sum_list_if_const)
qed

lemma v_tag_counts:
  "get3 (results_view (v_tag cb y V)) c t u =
   get3 (results_view V) c t u + (if c = cb then tag_count_increment t u y else 0)"
proof -
  obtain TAG umis where y: "y = (TAG, umis)" by (cases y)
  have "get3 (results_view (fold (v_umi cb TAG (int (length umis))) umis V)) c t u =
        get3 (results_view V) c t u +
        sum_list (map (\<lambda>x. if c = cb \<and> t = TAG then umi_count_increment u x else 0) umis)"
    by (rule fold_adds) (auto simp: v_umi_def get3_bump3 umi_count_increment_def)
  then show ?thesis
    by (simp add: y v_tag_def tag_count_increment_def sum_list_if_const)
qed

lemma v_cell_umis:
  "get0 (umis_view (v_cell y V)) c = get0 (umis_view V) c + cell_umi_increment c y"
proof -
  obtain cb tags where y: "y = (cb, tags)" by (cases y)
  have "get0 (umis_view (fold (v_tag cb) tags (v_touch cb V))) c =
        get0 (umis_view (v_touch cb V)) c +
        sum_list (map (\<lambda>x. if c = cb then tag_umi_increment x else 0) tags)"
    by (rule fold_adds) (rule v_tag_umis)
  then show ?thesis
    by (simp add: y v_cell_def cell_umi_increment_def sum_list_if_const v_touch_def)
qed

lemma v_cell_reads:
  "get0 (reads_view (v_cell y V)) c = get0 (reads_view V) c + cell_read_increment c y"
proof -
  obtain cb tags where y: "y = (cb, tags)" by (cases y)
  have "get0 (reads_view (fold (v_tag cb) tags (v_touch cb V))) c =
        get0 (reads_view (v_touch cb V)) c +
        sum_list (map (\<lambda>x. if c = cb then tag_read_increment x else 0) tags)"
    by (rule fold_adds) (rule v_tag_reads)
  then show ?thesis
    by (simp add: y v_cell_def cell_read_increment_def sum_list_if_const v_touch_def)
qed

lemma v_cell_counts:
  "get3 (results_view (v_cell y V)) c t u =
   get3 (results_view V) c t u + cell_count_increment c t u y"
proof -
  obtain cb tags where y: "y = (cb, tags)" by (cases y)
  have "get3 (results_view (fold (v_tag cb) tags (v_touch cb V))) c t u =
        get3 (results_view (v_touch cb V)) c t u +
        sum_list (map (\<lambda>x. if c = cb then tag_count_increment t u x else 0) tags)"
    by (rule fold_adds) (rule v_tag_counts)
  then show ?thesis
    by (simp add: y v_cell_def cell_count_increment_def sum_list_if_const v_touch_def get3_touch)
qed

lemma v_chunk_umis:
  "get0 (umis_view (v_chunk y V)) c = get0 (umis_view V) c + chunk_umi_increment c y"
proof -
  obtain mapped unmapped where y: "y = (mapped, unmapped)" by (cases y)
  have "get0 (umis_view (fold v_cell mapped V)) c =
        get0 (umis_view V) c + sum_list (map (cell_umi_increment c) mapped)"
    by (rule fold_adds) (rule v_cell_umis)
  then show ?thesis
    by (simp add: y v_chunk_def chunk_umi_increment_def fold_v_unmapped)
qed

lemma v_chunk_reads:
  "get0 (reads_view (v_chunk y V)) c = get0 (reads_view V) c + chunk_read_increment c y"
proof -
  obtain mapped unmapped where y: "y = (mapped, unmapped)" by (cases y)
  have "get0 (reads_view (fold v_cell mapped V)) c =
        get0 (reads_view V) c + sum_list (map (cell_read_increment c) mapped)"
    by (rule fold_adds) (rule v_cell_reads)
  then show ?thesis
    by (simp add: y v_chunk_def chunk_read_increment_def fold_v_unmapped)
qed

lemma v_chunk_counts:
  "get3 (results_view (v_chunk y V)) c t u =
   get3 (results_view V) c t u + chunk_count_increment c t u y"
proof -
  obtain mapped unmapped where y: "y = (mapped, unmapped)" by (cases y)
  have "get3 (results_view (fold v_cell mapped V)) c t u =
        get3 (results_view V) c t u + sum_list (map (cell_count_increment c t u) mapped)"
    by (rule fold_adds) (rule v_cell_counts)
  then show ?thesis
    by (simp add: y v_chunk_def chunk_count_increment_def fold_v_unmapped)
qed

subsection \<open>What merging adds up\<close>

text \<open>
  Claim C2.  Merging any list of per-chunk results returns, and in the result: the UMI
  total of a cell barcode is the sum, over every chunk and every tag of that cell barcode
  in the chunk, of \<open>k * k\<close> where \<open>k\<close> is the number of UMIs in the tag's counter (each of
  the \<open>k\<close> UMIs adds \<open>k\<close>); the read total of the cell barcode is the sum of the counts of
  these UMIs; and the count stored for a UMI under a tag of the cell barcode is the sum of
  the counts the chunks hold for it.
\<close>

theorem merge_results_totals:
  "\<exists>st. merge_results parallel_results = Inr st \<and>
     (\<forall>cb. counter_get (umis_per_cell st) cb =
              sum_list (map (chunk_umi_increment cb) parallel_results)) \<and>
     (\<forall>cb. counter_get (reads_per_cell st) cb =
              sum_list (map (chunk_read_increment cb) parallel_results)) \<and>
     (\<forall>cb TAG UMI. results_count (merged_results st) cb TAG UMI =
              sum_list (map (chunk_count_increment cb TAG UMI) parallel_results))"
proof -
  obtain st where st: "merge_results parallel_results = Inr st"
      "view st = fold v_chunk parallel_results view_init"
    using merge_results_view by blast
  have u: "get0 (umis_view (view st)) cb = sum_list (map (chunk_umi_increment cb) parallel_results)" for cb
  proof -
    have "get0 (umis_view (fold v_chunk parallel_results view_init)) cb =
          get0 (umis_view view_init) cb + sum_list (map (chunk_umi_increment cb) parallel_results)"
      by (rule fold_adds) (rule v_chunk_umis)
    then show ?thesis by (simp add: st view_init_def get0_def)
  qed
  have r: "get0 (reads_view (view st)) cb = sum_list (map (chunk_read_increment cb) parallel_results)" for cb
  proof -
    have "get0 (reads_view (fold v_chunk parallel_results view_init)) cb =
          get0 (reads_view view_init) cb + sum_list (map (chunk_read_increment cb) parallel_results)"
      by (rule fold_adds) (rule v_chunk_reads)
    then show ?thesis by (simp add: st view_init_def get0_def)
  qed
  have c: "get3 (results_view (view st)) cb t u =
           sum_list (map (chunk_count_increment cb t u) parallel_results)" for cb t u
  proof -
    have "get3 (results_view (fold v_chunk parallel_results view_init)) cb t u =
          get3 (results_view view_init) cb t u +
          sum_list (map (chunk_count_increment cb t u) parallel_results)"
      by (rule fold_adds) (rule v_chunk_counts)
    then show ?thesis by (simp add: st view_init_def get3_def)
  qed
  show ?thesis
    using u r c by (simp add: st(1) counter_get_view results_count_view) (simp add: view_def)
qed

text \<open>
  One chunk, one cell barcode, one tag with the two UMIs \<open>u1\<close> (2 reads) and \<open>u2\<close>
  (3 reads): the UMI total of the cell is 4, not 2, and its read total is 5.
\<close>

lemma merge_results_two_umis:
  "merge_results [([(''cell'', [(''tagA'', [(''u1'', 2), (''u2'', 3)])])], [])] =
     Inr \<lparr>merged_results = [(''cell'', [(''tagA'', [(''u1'', 2), (''u2'', 3)])])],
          umis_per_cell = [(''cell'', 4)],
          reads_per_cell = [(''cell'', 5)],
          merged_no_match = []\<rparr>"
  by (simp add: merge_results_def merge_chunk_def merge_cell_def merge_tag_def merge_umi_def
      counter_add_def counter_get_def counter_update_def defaultdict_get_def)

subsection \<open>The order of the chunks\<close>

text \<open>
  Claim C8.  Merging a list of per-chunk results and merging any permutation of it both
  return, and the two results are equal as maps: the same nested counts, the same
  per-cell UMI totals, the same per-cell read totals and the same tally of unmapped
  sequences.
\<close>

theorem merge_results_order_independent:
  assumes "mset parallel_results' = mset parallel_results"
  shows "\<exists>st st'. merge_results parallel_results = Inr st \<and>
           merge_results parallel_results' = Inr st' \<and>
           view_results (merged_results st') = view_results (merged_results st) \<and>
           map_of (umis_per_cell st') = map_of (umis_per_cell st) \<and>
           map_of (reads_per_cell st') = map_of (reads_per_cell st) \<and>
           map_of (merged_no_match st') = map_of (merged_no_match st)"
proof -
  obtain st where st: "merge_results parallel_results = Inr st"
      "view st = fold v_chunk parallel_results view_init"
    using merge_results_view by blast
  obtain st' where st': "merge_results parallel_results' = Inr st'"
      "view st' = fold v_chunk parallel_results' view_init"
    using merge_results_view by blast
  have "fold v_chunk parallel_results' = fold v_chunk parallel_results"
    by (rule fold_multiset_equiv) (auto simp: v_chunk_commute assms)
  with st st' have "view st' = view st" by simp
  then show ?thesis
    using st(1) st'(1) by (simp add: view_def)
qed

text \<open>
  Two chunks that share a cell barcode and a tag, merged in both orders.
\<close>

theorem merge_results_order_independent_witness:
  "\<exists>st st'.
     merge_results [([(''c1'', [(''tagA'', [(''u1'', 2)])])], [(''GGGG'', 1)]),
                    ([(''c2'', [(''tagA'', [(''u1'', 1)])]), (''c1'', [(''tagA'', [(''u2'', 3)])])], [])]
       = Inr st \<and>
     merge_results [([(''c2'', [(''tagA'', [(''u1'', 1)])]), (''c1'', [(''tagA'', [(''u2'', 3)])])], []),
                    ([(''c1'', [(''tagA'', [(''u1'', 2)])])], [(''GGGG'', 1)])]
       = Inr st' \<and>
     view_results (merged_results st') = view_results (merged_results st) \<and>
     map_of (umis_per_cell st') = map_of (umis_per_cell st) \<and>
     map_of (reads_per_cell st') = map_of (reads_per_cell st) \<and>
     map_of (merged_no_match st') = map_of (merged_no_match st)"
  by (rule merge_results_order_independent) simp

end
